theory Spec2Isabelle
  imports Main "HOL-Library.Word" "HOL-Library.AList"
begin

unbundle bit_operations_syntax

section \<open>The passthrough set of the keyboard daemon\<close>

text \<open>
  The development follows \<^verbatim>\<open>src/KBDDaemon.cpp\<close> (the current revision, the first
  translation unit of the file). The daemon keeps, per loaded CSV file, the vector of key
  codes the file contributed (\<^verbatim>\<open>key_sources\<close>), and the set of all codes that are
  passed to the macro daemon (\<^verbatim>\<open>passthrough_keys\<close>).
\<close>

subsection \<open>System constants\<close>

text \<open>Permission and file type bits of \<^verbatim>\<open>sys/stat.h\<close>, written in decimal:
  0700, 070, 07, 0170000 and 0020000 in octal.\<close>

definition S_IRWXU :: "32 word" where "S_IRWXU = 448"
definition S_IRWXG :: "32 word" where "S_IRWXG = 56"
definition S_IRWXO :: "32 word" where "S_IRWXO = 7"
definition S_IFMT :: "32 word" where "S_IFMT = 61440"
definition S_IFCHR :: "32 word" where "S_IFCHR = 8192"

definition S_ISCHR :: "32 word \<Rightarrow> bool" where
  "S_ISCHR m = (m AND S_IFMT = S_IFCHR)"

text \<open>Event bits of \<^verbatim>\<open>sys/inotify.h\<close>: 0x2, 0x100 and 0x400.\<close>

definition IN_MODIFY :: "32 word" where "IN_MODIFY = 2"
definition IN_CREATE :: "32 word" where "IN_CREATE = 256"
definition IN_DELETE_SELF :: "32 word" where "IN_DELETE_SELF = 1024"

subsection \<open>Data\<close>

text \<open>The fields of \<^verbatim>\<open>struct stat\<close> that the daemon reads.\<close>

record stat =
  st_mode :: "32 word"
  st_uid :: "32 word"
  st_gid :: "32 word"

text \<open>\<^verbatim>\<open>struct FSEvent\<close> of \<^verbatim>\<open>FSWatcher.hpp\<close>.\<close>

record FSEvent =
  ev_path :: string
  ev_mask :: "32 word"
  ev_stbuf :: stat
  ev_added :: bool

text \<open>
  What the daemon prints while it loads and unloads files. The text of a message is
  reduced to its kind and its arguments.
\<close>

datatype log_line =
    LogRM string
  | LogLoaded string
  | LogLoadError
  | LogOK string
  | LogPerm "32 word" "32 word"
  | LogInvalidPerm string

text \<open>
  The members of \<^verbatim>\<open>KBDDaemon\<close> that hold the passthrough set. The map
  \<^verbatim>\<open>key_sources\<close> is an association list (the loops of the source iterate over
  it), \<^verbatim>\<open>keys_fsw\<close> is the set of paths registered with the file system watcher, and
  \<^verbatim>\<open>out\<close> is the standard output.
\<close>

record pt_state =
  key_sources :: "(string \<times> int list) list"
  passthrough_keys :: "int set"
  keys_fsw :: "string set"
  out :: "log_line list"

definition pt_init :: pt_state where
  "pt_init = \<lparr>key_sources = [], passthrough_keys = {}, keys_fsw = {}, out = []\<rparr>"

text \<open>
  The results of the calls that leave the program: \<^verbatim>\<open>realpath\<close> (\<open>None\<close> for a null
  pointer), the cells of the column \<^verbatim>\<open>key_code\<close> of the CSV file at a path (\<open>None\<close>
  when the \<^verbatim>\<open>CSV\<close> class throws \<^verbatim>\<open>CSVError\<close>), and \<^verbatim>\<open>getuid\<close>.
\<close>

record env =
  realpath :: "string \<Rightarrow> string option"
  csv_key_code :: "string \<Rightarrow> string list option"
  getuid :: "32 word"

subsection \<open>\<^verbatim>\<open>std::stoi\<close>\<close>

text \<open>
  \<^verbatim>\<open>std::stoi\<close> in base 10, as the C++ standard describes it through \<^verbatim>\<open>strtol\<close>:
  leading white space is skipped, one sign is accepted, the longest run of decimal digits
  is converted and what follows is ignored. No digit gives \<^verbatim>\<open>invalid_argument\<close>; a
  value outside of \<^verbatim>\<open>int\<close> gives \<^verbatim>\<open>out_of_range\<close>.
\<close>

datatype stoi_error = invalid_argument | out_of_range

definition isspace :: "char \<Rightarrow> bool" where
  "isspace c = (of_char c \<in> {32, 9, 10, 11, 12, 13 :: nat})"

definition isdigit :: "char \<Rightarrow> bool" where
  "isdigit c = (48 \<le> (of_char c :: nat) \<and> (of_char c :: nat) \<le> 57)"

fun digits_value :: "int \<Rightarrow> string \<Rightarrow> int" where
  "digits_value acc [] = acc"
| "digits_value acc (c # cs) = digits_value (10 * acc + (of_char c - 48)) cs"

definition stoi :: "string \<Rightarrow> stoi_error + int" where
  "stoi s =
     (let s1 = dropWhile isspace s;
          neg = (case s1 of [] \<Rightarrow> False | c # _ \<Rightarrow> c = CHR ''-'');
          s2 = (case s1 of [] \<Rightarrow> []
                | c # r \<Rightarrow> if c = CHR ''-'' \<or> c = CHR ''+'' then r else s1);
          ds = takeWhile isdigit s2
      in if ds = [] then Inl invalid_argument
         else let v = (if neg then - digits_value 0 ds else digits_value 0 ds)
              in if v < - 2147483648 \<or> 2147483647 < v then Inl out_of_range else Inr v)"

subsection \<open>\<^verbatim>\<open>KBDDaemon::unloadPassthrough\<close>\<close>

text \<open>The loop \<^verbatim>\<open>for (int code : *vec) passthrough_keys.erase(code)\<close>.\<close>

fun erase_codes :: "int list \<Rightarrow> int set \<Rightarrow> int set" where
  "erase_codes [] ks = ks"
| "erase_codes (code # vec) ks = erase_codes vec (ks - {code})"

text \<open>The loop \<^verbatim>\<open>for (int code : *vec) passthrough_keys.insert(code)\<close>.\<close>

fun insert_codes :: "int list \<Rightarrow> int set \<Rightarrow> int set" where
  "insert_codes [] ks = ks"
| "insert_codes (code # vec) ks = insert_codes vec (insert code ks)"

text \<open>The loop over the remaining sources that re-adds their keys.\<close>

fun readd_keys :: "(string \<times> int list) list \<Rightarrow> int set \<Rightarrow> int set" where
  "readd_keys [] ks = ks"
| "readd_keys ((p, vec) # srcs) ks = readd_keys srcs (insert_codes vec ks)"

definition unloadPassthrough :: "string \<Rightarrow> pt_state \<Rightarrow> pt_state" where
  "unloadPassthrough p s =
     (case map_of (key_sources s) p of
        None \<Rightarrow> s
      | Some vec \<Rightarrow>
          let ks = erase_codes vec (passthrough_keys s);
              srcs = AList.delete p (key_sources s)
          in s\<lparr>key_sources := srcs,
                passthrough_keys := readd_keys srcs ks,
                out := out s @ [LogRM p]\<rparr>)"

subsection \<open>\<^verbatim>\<open>KBDDaemon::loadPassthrough(std::string)\<close>\<close>

text \<open>
  The loop over the cells of the column: a cell on which \<^verbatim>\<open>stoi\<close> throws is passed
  over by \<^verbatim>\<open>continue\<close>; a value that is not negative is inserted into
  \<^verbatim>\<open>passthrough_keys\<close> and pushed onto \<^verbatim>\<open>cells_i\<close>.
\<close>

fun load_cells :: "string list \<Rightarrow> int set \<times> int list \<Rightarrow> int set \<times> int list" where
  "load_cells [] acc = acc"
| "load_cells (code_s # cells) (ks, cells_i) =
     (case stoi code_s of
        Inl e \<Rightarrow> load_cells cells (ks, cells_i)
      | Inr i \<Rightarrow>
          if 0 \<le> i then load_cells cells (insert i ks, cells_i @ [i])
          else load_cells cells (ks, cells_i))"

text \<open>
  Both exceptions that the function catches, \<^verbatim>\<open>SystemError\<close> of a failed
  \<^verbatim>\<open>realpath\<close> and \<^verbatim>\<open>CSVError\<close>, print a line and return. The old keys of the
  path are unloaded before the CSV file is read. \<^verbatim>\<open>keys_fsw.add\<close> is taken to succeed:
  \<^verbatim>\<open>FSWatcher.hpp\<close> documents that adding a path twice fails silently.
\<close>

definition loadPassthrough :: "env \<Rightarrow> string \<Rightarrow> pt_state \<Rightarrow> pt_state" where
  "loadPassthrough e rel_path s =
     (case realpath e rel_path of
        None \<Rightarrow> s\<lparr>out := out s @ [LogLoadError]\<rparr>
      | Some p \<Rightarrow>
          let s1 = unloadPassthrough p s in
          (case csv_key_code e p of
             None \<Rightarrow> s1\<lparr>out := out s1 @ [LogLoadError]\<rparr>
           | Some cells \<Rightarrow>
               let r = load_cells cells (passthrough_keys s1, [])
               in s1\<lparr>key_sources := AList.update p (snd r) (key_sources s1),
                      passthrough_keys := fst r,
                      keys_fsw := insert p (keys_fsw s1),
                      out := out s1 @ [LogLoaded p]\<rparr>))"

subsection \<open>\<^verbatim>\<open>KBDDaemon::loadPassthrough(FSEvent*)\<close>\<close>

definition file_perm :: "FSEvent \<Rightarrow> 32 word" where
  "file_perm ev = st_mode (ev_stbuf ev) AND (S_IRWXU OR S_IRWXG OR S_IRWXO)"

text \<open>The mode 0644 is 420 in decimal.\<close>

definition loadPassthrough_ev :: "env \<Rightarrow> FSEvent \<Rightarrow> pt_state \<Rightarrow> pt_state" where
  "loadPassthrough_ev e ev s =
     (if file_perm ev = 420 \<and> st_uid (ev_stbuf ev) = getuid e
      then loadPassthrough e (ev_path ev)
             (s\<lparr>out := out s @ [LogOK (ev_path ev), LogPerm (file_perm ev) (getuid e)]\<rparr>)
      else s\<lparr>out := out s @ [LogInvalidPerm (ev_path ev), LogPerm (file_perm ev) (getuid e)]\<rparr>)"

text \<open>The callback of \<^verbatim>\<open>keys_fsw.begin\<close> in \<^verbatim>\<open>KBDDaemon::run\<close>.\<close>

definition keys_fsw_callback :: "env \<Rightarrow> FSEvent \<Rightarrow> pt_state \<Rightarrow> pt_state" where
  "keys_fsw_callback e ev s =
     (if ev_mask ev AND IN_DELETE_SELF \<noteq> 0 then unloadPassthrough (ev_path ev) s
      else if ev_mask ev AND (IN_CREATE OR IN_MODIFY) \<noteq> 0 then loadPassthrough_ev e ev s
      else s)"

text \<open>\<^verbatim>\<open>passthrough_keys.count(code)\<close>, the membership test of the run loop.\<close>

definition contains :: "pt_state \<Rightarrow> int \<Rightarrow> bool" where
  "contains s c = (c \<in> passthrough_keys s)"

text \<open>
  A call of one of the operations, together with the results of the system calls it
  sees, and the state after a sequence of calls.
\<close>

datatype pt_op =
    Unload string
  | Load env string
  | LoadEvent env FSEvent
  | WatchEvent env FSEvent

fun apply_op :: "pt_op \<Rightarrow> pt_state \<Rightarrow> pt_state" where
  "apply_op (Unload p) s = unloadPassthrough p s"
| "apply_op (Load e p) s = loadPassthrough e p s"
| "apply_op (LoadEvent e ev) s = loadPassthrough_ev e ev s"
| "apply_op (WatchEvent e ev) s = keys_fsw_callback e ev s"

definition run_ops :: "pt_op list \<Rightarrow> pt_state \<Rightarrow> pt_state" where
  "run_ops ops s = fold apply_op ops s"

text \<open>
  The code that a cell of the column contributes, in the words of the specification: a
  cell that parses as a non-negative integer contributes that integer, any other cell
  contributes nothing. It is compared with the loop of the source below.
\<close>

definition cell_code :: "string \<Rightarrow> int option" where
  "cell_code code_s =
     (case stoi code_s of Inl e \<Rightarrow> None | Inr i \<Rightarrow> if 0 \<le> i then Some i else None)"

text \<open>Some file that is loaded at present contributed the code.\<close>

definition contributed :: "pt_state \<Rightarrow> int \<Rightarrow> bool" where
  "contributed s c = (c \<in> set (concat (map snd (key_sources s))))"

text \<open>
  The invariant of the two members: the paths of \<^verbatim>\<open>key_sources\<close> are distinct and
  \<^verbatim>\<open>passthrough_keys\<close> is the union of the vectors; and no vector holds a negative code.
\<close>

definition pt_inv :: "pt_state \<Rightarrow> bool" where
  "pt_inv s = (distinct (map fst (key_sources s)) \<and>
               passthrough_keys s = set (concat (map snd (key_sources s))))"

definition nonneg_codes :: "pt_state \<Rightarrow> bool" where
  "nonneg_codes s = list_all (\<lambda>c. 0 \<le> c) (concat (map snd (key_sources s)))"

section \<open>The run loop\<close>

subsection \<open>Data\<close>

text \<open>
  Modelled from the spec: the headers that declare \<^verbatim>\<open>KBDState\<close>, the key event
  \<^verbatim>\<open>input_event\<close> and \<^verbatim>\<open>KBDAction\<close> are not among the sources. The specification
  gives a device the states INITIAL, LOCKED and DISABLED, a key event a time stamp, a code
  of 16 bits and a value of 32 bits, and an action a key event and the flag \<^verbatim>\<open>done\<close>.
\<close>

datatype KBDState = INITIAL | LOCKED | DISABLED

record KeyEvent =
  ke_time :: nat
  ke_code :: "16 word"
  ke_value :: "32 word"

record KBDAction =
  act_ev :: KeyEvent
  act_done :: bool

text \<open>The calls on the virtual keyboard \<^verbatim>\<open>udev\<close>, and the lines written to syslog.\<close>

datatype udev_call = Emit KeyEvent | Flush

datatype syslog_line =
    SysReadError nat
  | SysNoPermissions string
  | SysPluggedIn nat
  | SysNoMacroD

text \<open>
  The state of \<^verbatim>\<open>KBDDaemon::run\<close>. A keyboard is named by its address, a natural number;
  \<^verbatim>\<open>kbd_state\<close> is the state of the keyboard at each address. \<^verbatim>\<open>udev\<close> holds the calls
  made on the virtual keyboard so far, \<^verbatim>\<open>kbd_com_sent\<close> the actions sent to the macro
  daemon, \<^verbatim>\<open>kbd_calls\<close> the keyboards that \<^verbatim>\<open>isMe\<close> was asked about.
\<close>

record run_state =
  kbd_state :: "nat \<Rightarrow> KBDState"
  available_kbds :: "nat list"
  pulled_kbds :: "nat list"
  action :: KBDAction
  errors :: int
  udev :: "udev_call list"
  kbd_com_sent :: "KBDAction list"
  kbd_com_open :: bool
  kbd_calls :: "nat list"
  syslog :: "syslog_line list"

definition MAX_ERRORS :: int where
  "MAX_ERRORS = 30"

text \<open>
  What one iteration of the loop receives from outside: the passthrough set at the time
  of the lookup, the index that \<^verbatim>\<open>kbdMultiplex\<close> returns, the result of \<^verbatim>\<open>kbd->get\<close>
  (\<^verbatim>\<open>KeyboardError\<close> or a key event), whether \<^verbatim>\<open>kbd_com.send\<close> succeeds, and the results of
  the calls of \<^verbatim>\<open>kbd_com.recv\<close> in order (\<^verbatim>\<open>SocketError\<close> or an action). A call of
  \<^verbatim>\<open>recv\<close> that throws leaves the buffer as it was. When the macro daemon sends nothing
  more, \<^verbatim>\<open>recv\<close> blocks.
\<close>

datatype get_result = GetKey KeyEvent | GetThrows

datatype recv_result = Recv KBDAction | RecvThrows

record iter_input =
  in_keys :: "int set"
  in_idx :: int
  in_get :: get_result
  in_send_ok :: bool
  in_recv :: "recv_result list"

datatype outcome = Continue run_state | Aborted run_state | Blocked | Undefined

subsection \<open>The body of the loop\<close>

text \<open>
  The loop that receives the keys to emit from the macro daemon. Every action is received
  into the one buffer \<^verbatim>\<open>action\<close> that also holds the key read from the keyboard.
\<close>

datatype recv_outcome = RecvDone run_state | RecvError run_state | RecvBlocked

fun recv_loop :: "recv_result list \<Rightarrow> run_state \<Rightarrow> recv_outcome" where
  "recv_loop [] s = RecvBlocked"
| "recv_loop (RecvThrows # rs) s = RecvError s"
| "recv_loop (Recv a # rs) s =
     (if act_done a then RecvDone (s\<lparr>action := a\<rparr>)
      else recv_loop rs (s\<lparr>action := a, udev := udev s @ [Emit (act_ev a)]\<rparr>))"

text \<open>The statements of the inner \<^verbatim>\<open>try\<close> block up to the end of the receive loop.\<close>

definition send_recv :: "iter_input \<Rightarrow> run_state \<Rightarrow> recv_outcome" where
  "send_recv inp s =
     (if in_send_ok inp
      then recv_loop (in_recv inp) (s\<lparr>kbd_com_sent := kbd_com_sent s @ [action s]\<rparr>)
      else RecvError s)"

text \<open>The last two statements of the body: \<^verbatim>\<open>udev.emit(&action.ev); udev.flush()\<close>.\<close>

definition emit_flush :: "run_state \<Rightarrow> run_state" where
  "emit_flush s = s\<lparr>udev := udev s @ [Emit (act_ev (action s)), Flush]\<rparr>"

text \<open>
  The handler of \<^verbatim>\<open>SocketError\<close>: \<^verbatim>\<open>errors++ > MAX_ERRORS\<close> compares the value that the
  counter had before the increment.
\<close>

definition socket_error :: "run_state \<Rightarrow> outcome" where
  "socket_error s =
     (if errors s > MAX_ERRORS
      then Aborted (s\<lparr>errors := errors s + 1, kbd_com_open := False,
                      syslog := syslog s @ [SysNoMacroD]\<rparr>)
      else Continue (emit_flush (s\<lparr>errors := errors s + 1\<rparr>)))"

text \<open>The part of the body that follows a key that was read from a locked keyboard.\<close>

definition handle_key :: "iter_input \<Rightarrow> run_state \<Rightarrow> outcome" where
  "handle_key inp s =
     (if uint (ke_code (act_ev (action s))) \<in> in_keys inp
      then (case send_recv inp s of
              RecvDone s' \<Rightarrow> Continue (s'\<lparr>udev := udev s' @ [Flush], errors := 0\<rparr>)
            | RecvError s' \<Rightarrow> socket_error s'
            | RecvBlocked \<Rightarrow> Blocked)
      else Continue (emit_flush s))"

text \<open>
  The handler of \<^verbatim>\<open>KeyboardError\<close>: the keyboard is disabled and moved from the available
  keyboards to the pulled ones. Modelled from the spec: \<^verbatim>\<open>Keyboard::disable\<close> is not among
  the sources; it leaves the keyboard in the state DISABLED.
\<close>

definition keyboard_error :: "nat \<Rightarrow> run_state \<Rightarrow> run_state" where
  "keyboard_error kbd s =
     s\<lparr>kbd_state := (kbd_state s)(kbd := DISABLED),
       available_kbds := remove1 kbd (available_kbds s),
       pulled_kbds := pulled_kbds s @ [kbd],
       syslog := syslog s @ [SysReadError kbd]\<rparr>"

text \<open>
  One iteration. An index other than \<open>-1\<close> that is outside of the copy of
  \<^verbatim>\<open>available_kbds\<close> has no defined behaviour in the source.
\<close>

definition run_iter :: "iter_input \<Rightarrow> run_state \<Rightarrow> outcome" where
  "run_iter inp s0 =
     (let s = s0\<lparr>action := (action s0)\<lparr>act_done := False\<rparr>\<rparr>;
          kbds = available_kbds s
      in if in_idx inp = - 1 then Continue s
         else if in_idx inp < 0 \<or> int (length kbds) \<le> in_idx inp then Undefined
         else let kbd = kbds ! nat (in_idx inp) in
           (case in_get inp of
              GetThrows \<Rightarrow> Continue (keyboard_error kbd s)
            | GetKey e \<Rightarrow>
                let s1 = s\<lparr>action := (action s)\<lparr>act_ev := e\<rparr>\<rparr>
                in if kbd_state s1 kbd = LOCKED then handle_key inp s1 else Continue s1))"

text \<open>A number of iterations, one after the other, until one does not continue.\<close>

fun run_loop :: "iter_input list \<Rightarrow> run_state \<Rightarrow> outcome" where
  "run_loop [] s = Continue s"
| "run_loop (inp # inps) s =
     (case run_iter inp s of Continue s' \<Rightarrow> run_loop inps s' | r \<Rightarrow> r)"

text \<open>Whether the loop has aborted, and the error counter it ends with.\<close>

definition is_aborted :: "outcome \<Rightarrow> bool" where
  "is_aborted r = (case r of Aborted s \<Rightarrow> True | _ \<Rightarrow> False)"

definition errors_after :: "outcome \<Rightarrow> int option" where
  "errors_after r =
     (case r of Continue s \<Rightarrow> Some (errors s) | Aborted s \<Rightarrow> Some (errors s) | _ \<Rightarrow> None)"

text \<open>
  A state with its buffer \<^verbatim>\<open>action\<close> set to a fixed value, the same for an outcome, and
  what an outcome shows outside of the daemon: the calls on the virtual keyboard and the
  actions sent to the macro daemon.
\<close>

definition forget_action :: "run_state \<Rightarrow> run_state" where
  "forget_action s =
     s\<lparr>action := \<lparr>act_ev = \<lparr>ke_time = 0, ke_code = 0, ke_value = 0\<rparr>, act_done = False\<rparr>\<rparr>"

fun forget :: "outcome \<Rightarrow> outcome" where
  "forget (Continue s) = Continue (forget_action s)"
| "forget (Aborted s) = Aborted (forget_action s)"
| "forget Blocked = Blocked"
| "forget Undefined = Undefined"

definition outputs :: "outcome \<Rightarrow> (udev_call list \<times> KBDAction list) option" where
  "outputs r =
     (case r of Continue s \<Rightarrow> Some (udev s, kbd_com_sent s)
      | Aborted s \<Rightarrow> Some (udev s, kbd_com_sent s)
      | Blocked \<Rightarrow> None | Undefined \<Rightarrow> None)"

section \<open>Keyboards that are plugged in again\<close>

definition FSW_MAX_WAIT_PERMISSIONS_US :: int where
  "FSW_MAX_WAIT_PERMISSIONS_US = 5 * 1000000"

definition wait_inc_us :: int where
  "wait_inc_us = 100"

text \<open>
  What the callback of \<^verbatim>\<open>input_fsw.begin\<close> receives from outside: the result of the
  \<open>n\<close>-th call of \<^verbatim>\<open>stat\<close> on the path of the event (\<open>None\<close> for \<open>-1\<close>), the answer of
  \<^verbatim>\<open>kbd->isMe\<close> for each keyboard, and the group id of the group \<^verbatim>\<open>input\<close>.
\<close>

record hp_env =
  hp_stat :: "nat \<Rightarrow> stat option"
  hp_isMe :: "nat \<Rightarrow> bool"
  input_gid :: "32 word"

datatype wait_outcome = NotCharDev | TimedOut | Proceed nat

text \<open>
  The \<^verbatim>\<open>do ... while\<close> loop that waits for the permissions of the new file. \<open>n\<close> counts
  the calls of \<^verbatim>\<open>stat\<close>; the loop sleeps \<^verbatim>\<open>wait_inc_us\<close> before each. The conditions
  are those of the source: \<^verbatim>\<open>4 & grp_perm && grp_perm & 2\<close> with
  \<^verbatim>\<open>grp_perm = stbuf.st_mode & S_IRWXG\<close>, and the test for a character device reads the
  mode of the event. \<open>Proceed\<close> carries the number of calls of \<^verbatim>\<open>stat\<close> made so far.
\<close>

function wait_loop :: "hp_env \<Rightarrow> FSEvent \<Rightarrow> nat \<Rightarrow> int \<Rightarrow> wait_outcome" where
  "wait_loop h ev n wait_time =
     (if hp_stat h n \<noteq> None \<and> \<not> S_ISCHR (st_mode (ev_stbuf ev)) then NotCharDev
      else if wait_time + wait_inc_us > FSW_MAX_WAIT_PERMISSIONS_US then TimedOut
      else (case hp_stat h n of
              None \<Rightarrow> Proceed (Suc n)
            | Some stbuf \<Rightarrow>
                if \<not> (4 AND (st_mode stbuf AND S_IRWXG) \<noteq> 0 \<and>
                      (st_mode stbuf AND S_IRWXG) AND 2 \<noteq> 0)
                   \<and> st_gid stbuf \<noteq> input_gid h
                then wait_loop h ev (Suc n) (wait_time + wait_inc_us)
                else Proceed (Suc n)))"
  by pat_completeness auto
termination
  by (relation "measure (\<lambda>(h, ev, n, wait_time). nat (FSW_MAX_WAIT_PERMISSIONS_US - wait_time))")
     (auto simp: wait_inc_us_def FSW_MAX_WAIT_PERMISSIONS_US_def)

text \<open>
  The loop over the pulled keyboards; \<open>before\<close> holds the keyboards that the iterator has
  passed. Modelled from the spec: \<^verbatim>\<open>Keyboard::reset\<close> and \<^verbatim>\<open>Keyboard::lock\<close> are not
  among the sources; after both the keyboard is in the state LOCKED.
\<close>

fun hotplug_kbds ::
  "hp_env \<Rightarrow> FSEvent \<Rightarrow> nat list \<Rightarrow> nat list \<Rightarrow> nat \<Rightarrow> run_state \<Rightarrow> run_state" where
  "hotplug_kbds h ev before [] n s = s"
| "hotplug_kbds h ev before (kbd # rest) n s =
     (case wait_loop h ev n 0 of
        NotCharDev \<Rightarrow> s
      | TimedOut \<Rightarrow> s\<lparr>syslog := syslog s @ [SysNoPermissions (ev_path ev)]\<rparr>
      | Proceed n' \<Rightarrow>
          if hp_isMe h kbd
          then s\<lparr>kbd_state := (kbd_state s)(kbd := LOCKED),
                 available_kbds := available_kbds s @ [kbd],
                 pulled_kbds := before @ rest,
                 kbd_calls := kbd_calls s @ [kbd],
                 syslog := syslog s @ [SysPluggedIn kbd]\<rparr>
          else hotplug_kbds h ev (before @ [kbd]) rest n'
                 (s\<lparr>kbd_calls := kbd_calls s @ [kbd]\<rparr>))"

definition input_fsw_callback :: "hp_env \<Rightarrow> FSEvent \<Rightarrow> run_state \<Rightarrow> run_state" where
  "input_fsw_callback h ev s =
     (if ev_path ev = ''/dev/input'' then s else hotplug_kbds h ev [] (pulled_kbds s) 0 s)"

section \<open>Concrete inputs\<close>

text \<open>
  Two CSV files, \<^verbatim>\<open>a.csv\<close> with the code 30 and \<^verbatim>\<open>b.csv\<close> with the codes 30 and 31,
  a file \<^verbatim>\<open>c.csv\<close> with cells that do not parse, the states after loading the first
  two, a file system in which no CSV file can be read, and a change of \<^verbatim>\<open>a.csv\<close>
  with the mode 0666 (\<^verbatim>\<open>S_IFREG | 0666\<close> is 33206).
\<close>

definition env_keys :: env where
  "env_keys =
     \<lparr>realpath = (\<lambda>p. Some p),
      csv_key_code =
        (\<lambda>p. if p = ''/keys/a.csv'' then Some [''30'']
              else if p = ''/keys/b.csv'' then Some [''30'', ''31'']
              else if p = ''/keys/c.csv'' then Some [''key'', ''44'', ''-3'', '' 45x'', [], ''44'']
              else None),
      getuid = 1000\<rparr>"

definition env_bad :: env where
  "env_bad = \<lparr>realpath = (\<lambda>p. Some p), csv_key_code = (\<lambda>p. None), getuid = 1000\<rparr>"

definition s_A :: pt_state where
  "s_A = loadPassthrough env_keys ''/keys/a.csv'' pt_init"

definition s_AB :: pt_state where
  "s_AB = loadPassthrough env_keys ''/keys/b.csv'' s_A"

definition ev_a_666 :: FSEvent where
  "ev_a_666 = \<lparr>ev_path = ''/keys/a.csv'', ev_mask = 2,
               ev_stbuf = \<lparr>st_mode = 33206, st_uid = 1000, st_gid = 1000\<rparr>, ev_added = False\<rparr>"

text \<open>
  One locked keyboard at address 0, the keys 30 and 31, and the inputs of an iteration in
  which the macro daemon echoes the key, one in which it replies once and the next
  \<^verbatim>\<open>recv\<close> throws, and one in which \<^verbatim>\<open>send\<close> throws.
\<close>

definition key30 :: KeyEvent where
  "key30 = \<lparr>ke_time = 7, ke_code = 30, ke_value = 1\<rparr>"

definition key31 :: KeyEvent where
  "key31 = \<lparr>ke_time = 8, ke_code = 31, ke_value = 1\<rparr>"

definition run_init :: run_state where
  "run_init =
     \<lparr>kbd_state = (\<lambda>k. LOCKED), available_kbds = [0], pulled_kbds = [],
      action = \<lparr>act_ev = \<lparr>ke_time = 0, ke_code = 0, ke_value = 0\<rparr>, act_done = False\<rparr>,
      errors = 0, udev = [], kbd_com_sent = [], kbd_com_open = True,
      kbd_calls = [], syslog = []\<rparr>"

definition in_echo :: iter_input where
  "in_echo =
     \<lparr>in_keys = {30}, in_idx = 0, in_get = GetKey key30, in_send_ok = True,
      in_recv = [Recv \<lparr>act_ev = key30, act_done = False\<rparr>,
                 Recv \<lparr>act_ev = key30, act_done = True\<rparr>]\<rparr>"

definition in_reply_then_error :: iter_input where
  "in_reply_then_error =
     \<lparr>in_keys = {30}, in_idx = 0, in_get = GetKey key30, in_send_ok = True,
      in_recv = [Recv \<lparr>act_ev = key31, act_done = False\<rparr>, RecvThrows]\<rparr>"

definition in_send_error :: iter_input where
  "in_send_error =
     \<lparr>in_keys = {30}, in_idx = 0, in_get = GetKey key30, in_send_ok = False, in_recv = []\<rparr>"

text \<open>
  A pulled keyboard at address 0 and a new character device \<^verbatim>\<open>/dev/input/event7\<close> that
  belongs to the group \<^verbatim>\<open>input\<close> (here 104) with the mode 0600: \<^verbatim>\<open>S_IFCHR | 0600\<close> is
  8576.
\<close>

definition run_pulled :: run_state where
  "run_pulled =
     run_init\<lparr>kbd_state := (\<lambda>k. DISABLED), available_kbds := [], pulled_kbds := [0]\<rparr>"

definition hp_restrictive :: hp_env where
  "hp_restrictive =
     \<lparr>hp_stat = (\<lambda>n. Some \<lparr>st_mode = 8576, st_uid = 0, st_gid = 104\<rparr>),
      hp_isMe = (\<lambda>k. True), input_gid = 104\<rparr>"

definition ev_event7 :: FSEvent where
  "ev_event7 = \<lparr>ev_path = ''/dev/input/event7'', ev_mask = 256,
                ev_stbuf = \<lparr>st_mode = 8576, st_uid = 0, st_gid = 0\<rparr>, ev_added = False\<rparr>"

section \<open>Properties of the passthrough set\<close>

subsection \<open>The loops as set operations\<close>

lemma erase_codes_eq: "erase_codes vec ks = ks - set vec"
  by (induction vec arbitrary: ks) auto

lemma insert_codes_eq: "insert_codes vec ks = ks \<union> set vec"
  by (induction vec arbitrary: ks) auto

lemma readd_keys_eq: "readd_keys srcs ks = ks \<union> set (concat (map snd srcs))"
  by (induction srcs ks rule: readd_keys.induct) (auto simp: insert_codes_eq)

lemma load_cells_eq:
  "load_cells cells (ks, cells_i) =
     (ks \<union> set (List.map_filter cell_code cells), cells_i @ List.map_filter cell_code cells)"
  by (induction cells arbitrary: ks cells_i) (auto simp: cell_code_def split: sum.splits)

lemma cell_code_nonneg: "c \<in> set (List.map_filter cell_code cells) \<Longrightarrow> 0 \<le> c"
  by (induction cells) (auto simp: cell_code_def split: sum.splits if_splits)

subsection \<open>Association lists\<close>

lemma codes_of_delete:
  assumes "distinct (map fst al)" and "map_of al p = Some vec"
  shows "set (concat (map snd al)) = set vec \<union> set (concat (map snd (AList.delete p al)))"
  using assms
proof (induction al)
  case Nil
  then show ?case by simp
next
  case (Cons a al)
  obtain q w where a: "a = (q, w)" by (cases a)
  show ?case
  proof (cases "q = p")
    case True
    with Cons.prems a have "w = vec" and "p \<notin> fst ` set al" by auto
    then show ?thesis using a True by (simp add: AList.delete_id)
  next
    case False
    with Cons a show ?thesis by (auto simp: AList.delete_simps)
  qed
qed

lemma codes_of_update_new:
  "map_of al p = None \<Longrightarrow>
     set (concat (map snd (AList.update p v al))) = set (concat (map snd al)) \<union> set v"
  by (induction al) (auto split: if_splits)

lemma set_delete_subset: "set (AList.delete p al) \<subseteq> set al"
  by (auto simp: AList.delete_eq)

lemma set_update_subset: "set (AList.update p v al) \<subseteq> insert (p, v) (set al)"
  by (induction al) (auto split: if_splits)

subsection \<open>What unloading does to the sources\<close>

lemma unload_absent: "map_of (key_sources (unloadPassthrough p s)) p = None"
  by (simp add: unloadPassthrough_def AList.delete_conv' Let_def split: option.splits)

lemma unload_other:
  "q \<noteq> p \<Longrightarrow> map_of (key_sources (unloadPassthrough p s)) q = map_of (key_sources s) q"
  by (simp add: unloadPassthrough_def Let_def split: option.splits)

subsection \<open>The set is the union of the sources\<close>

lemma unload_inv: "pt_inv s \<Longrightarrow> pt_inv (unloadPassthrough p s)"
proof -
  assume inv: "pt_inv s"
  show ?thesis
  proof (cases "map_of (key_sources s) p")
    case None
    with inv show ?thesis by (simp add: unloadPassthrough_def)
  next
    case (Some vec)
    from inv have d: "distinct (map fst (key_sources s))"
      and k: "passthrough_keys s = set (concat (map snd (key_sources s)))"
      by (simp_all add: pt_inv_def)
    have "set (concat (map snd (key_sources s))) =
            set vec \<union> set (concat (map snd (AList.delete p (key_sources s))))"
      using d Some by (rule codes_of_delete)
    with k have
      "passthrough_keys s - set vec \<union> set (concat (map snd (AList.delete p (key_sources s))))
         = set (concat (map snd (AList.delete p (key_sources s))))"
      by blast
    with d Some show ?thesis
      by (simp add: unloadPassthrough_def pt_inv_def Let_def erase_codes_eq readd_keys_eq
            AList.distinct_delete)
  qed
qed

lemma load_inv: "pt_inv s \<Longrightarrow> pt_inv (loadPassthrough e rel s)"
proof -
  assume inv: "pt_inv s"
  show ?thesis
  proof (cases "realpath e rel")
    case None
    with inv show ?thesis by (simp add: loadPassthrough_def pt_inv_def)
  next
    case (Some p)
    let ?s1 = "unloadPassthrough p s"
    have i1: "pt_inv ?s1" using inv by (rule unload_inv)
    have a1: "map_of (key_sources ?s1) p = None" by (rule unload_absent)
    show ?thesis
    proof (cases "csv_key_code e p")
      case None
      with \<open>realpath e rel = Some p\<close> i1 show ?thesis
        by (simp add: loadPassthrough_def pt_inv_def Let_def)
    next
      case (Some cells)
      have "set (concat (map snd (AList.update p v (key_sources ?s1)))) =
              set (concat (map snd (key_sources ?s1))) \<union> set v" for v
        using a1 by (rule codes_of_update_new)
      with Some \<open>realpath e rel = Some p\<close> i1 show ?thesis
        by (simp add: loadPassthrough_def pt_inv_def load_cells_eq Let_def
              AList.distinct_update)
    qed
  qed
qed

lemma load_ev_inv: "pt_inv s \<Longrightarrow> pt_inv (loadPassthrough_ev e ev s)"
proof -
  assume inv: "pt_inv s"
  have "pt_inv (s\<lparr>out := l\<rparr>)" for l using inv by (simp add: pt_inv_def)
  then show ?thesis by (simp add: loadPassthrough_ev_def load_inv)
qed

lemma apply_op_inv: "pt_inv s \<Longrightarrow> pt_inv (apply_op x s)"
  by (cases x) (simp_all add: unload_inv load_inv load_ev_inv keys_fsw_callback_def)

lemma run_ops_inv: "pt_inv s \<Longrightarrow> pt_inv (run_ops ops s)"
  unfolding run_ops_def by (induction ops arbitrary: s) (simp_all add: apply_op_inv)

lemma pt_init_inv: "pt_inv pt_init"
  by (simp add: pt_inv_def pt_init_def)

subsection \<open>No source holds a negative code\<close>

lemma nonneg_codes_iff:
  "nonneg_codes s = (\<forall>pv \<in> set (key_sources s). \<forall>c \<in> set (snd pv). 0 \<le> c)"
  by (auto simp: nonneg_codes_def list_all_iff)

lemma unload_nonneg: "nonneg_codes s \<Longrightarrow> nonneg_codes (unloadPassthrough p s)"
  using set_delete_subset [of p "key_sources s"]
  by (auto simp: nonneg_codes_iff unloadPassthrough_def Let_def split: option.splits)

lemma load_nonneg: "nonneg_codes s \<Longrightarrow> nonneg_codes (loadPassthrough e rel s)"
proof -
  assume n: "nonneg_codes s"
  show ?thesis
  proof (cases "realpath e rel")
    case None
    with n show ?thesis by (simp add: loadPassthrough_def nonneg_codes_iff)
  next
    case (Some p)
    let ?s1 = "unloadPassthrough p s"
    have n1: "nonneg_codes ?s1" using n by (rule unload_nonneg)
    show ?thesis
    proof (cases "csv_key_code e p")
      case None
      with \<open>realpath e rel = Some p\<close> n1 show ?thesis
        by (simp add: loadPassthrough_def nonneg_codes_iff Let_def)
    next
      case (Some cells)
      have "\<forall>pv \<in> set (AList.update p (List.map_filter cell_code cells) (key_sources ?s1)).
              \<forall>c \<in> set (snd pv). 0 \<le> c"
        using n1 set_update_subset [of p "List.map_filter cell_code cells" "key_sources ?s1"]
          cell_code_nonneg [of _ cells]
        by (fastforce simp: nonneg_codes_iff)
      with Some \<open>realpath e rel = Some p\<close> show ?thesis
        by (simp add: loadPassthrough_def nonneg_codes_iff Let_def load_cells_eq)
    qed
  qed
qed

lemma load_ev_nonneg: "nonneg_codes s \<Longrightarrow> nonneg_codes (loadPassthrough_ev e ev s)"
proof -
  assume n: "nonneg_codes s"
  have "nonneg_codes (s\<lparr>out := l\<rparr>)" for l using n by (simp add: nonneg_codes_iff)
  then show ?thesis by (simp add: loadPassthrough_ev_def load_nonneg)
qed

lemma apply_op_nonneg: "nonneg_codes s \<Longrightarrow> nonneg_codes (apply_op x s)"
  by (cases x) (simp_all add: unload_nonneg load_nonneg load_ev_nonneg keys_fsw_callback_def)

lemma run_ops_nonneg: "nonneg_codes s \<Longrightarrow> nonneg_codes (run_ops ops s)"
  unfolding run_ops_def by (induction ops arbitrary: s) (simp_all add: apply_op_nonneg)

lemma pt_init_nonneg: "nonneg_codes pt_init"
  by (simp add: nonneg_codes_def pt_init_def)

subsection \<open>The concrete states\<close>

lemmas stoi_defs = stoi_def isspace_def isdigit_def

lemma s_A_value:
  "s_A = \<lparr>key_sources = [(''/keys/a.csv'', [30])], passthrough_keys = {30},
          keys_fsw = {''/keys/a.csv''}, out = [LogLoaded ''/keys/a.csv'']\<rparr>"
  by (simp add: s_A_def loadPassthrough_def unloadPassthrough_def pt_init_def env_keys_def
        stoi_defs)

lemma s_AB_value:
  "s_AB = \<lparr>key_sources = [(''/keys/a.csv'', [30]), (''/keys/b.csv'', [30, 31])],
           passthrough_keys = {30, 31},
           keys_fsw = {''/keys/a.csv'', ''/keys/b.csv''},
           out = [LogLoaded ''/keys/a.csv'', LogLoaded ''/keys/b.csv'']\<rparr>"
  by (auto simp: s_AB_def s_A_value loadPassthrough_def unloadPassthrough_def env_keys_def
        stoi_defs)

lemma s_A_run: "run_ops [Load env_keys ''/keys/a.csv''] pt_init = s_A"
  by (simp add: run_ops_def s_A_def)

lemma s_AB_run:
  "run_ops [Load env_keys ''/keys/a.csv'', Load env_keys ''/keys/b.csv''] pt_init = s_AB"
  by (simp add: run_ops_def s_AB_def s_A_def)

section \<open>The claims about the passthrough set\<close>

text \<open>
  Claim C1. A load through \<^verbatim>\<open>loadPassthrough(FSEvent*)\<close> of a file whose permission
  bits (the lower nine bits of the mode) are not 0644, or whose owner is not the user of
  the daemon, is rejected: \<^verbatim>\<open>key_sources\<close>, \<^verbatim>\<open>passthrough_keys\<close> and the watched paths
  are what they were, so a contribution that the file made before is kept, and the only
  effect is the error message on the standard output.
\<close>

theorem load_rejected_unchanged:
  "file_perm ev \<noteq> 420 \<or> st_uid (ev_stbuf ev) \<noteq> getuid e \<Longrightarrow>
     key_sources (loadPassthrough_ev e ev s) = key_sources s \<and>
     passthrough_keys (loadPassthrough_ev e ev s) = passthrough_keys s \<and>
     keys_fsw (loadPassthrough_ev e ev s) = keys_fsw s \<and>
     out (loadPassthrough_ev e ev s) =
       out s @ [LogInvalidPerm (ev_path ev), LogPerm (file_perm ev) (getuid e)]"
  by (auto simp: loadPassthrough_ev_def)

theorem load_rejected_unchanged_witness:
  "file_perm ev_a_666 = 438 \<and> (438 :: 32 word) \<noteq> 420 \<and>
   key_sources (loadPassthrough_ev env_bad ev_a_666 s_A) = [(''/keys/a.csv'', [30])] \<and>
   passthrough_keys (loadPassthrough_ev env_bad ev_a_666 s_A) = {30} \<and>
   keys_fsw (loadPassthrough_ev env_bad ev_a_666 s_A) = {''/keys/a.csv''} \<and>
   out (loadPassthrough_ev env_bad ev_a_666 s_A) =
     [LogLoaded ''/keys/a.csv'', LogInvalidPerm ''/keys/a.csv'', LogPerm 438 1000]"
proof -
  have p: "file_perm ev_a_666 = 438"
    by (simp add: file_perm_def ev_a_666_def S_IRWXU_def S_IRWXG_def S_IRWXO_def)
  then have h: "file_perm ev_a_666 \<noteq> 420 \<or> st_uid (ev_stbuf ev_a_666) \<noteq> getuid env_bad"
    by simp
  show ?thesis using p load_rejected_unchanged [OF h, of s_A]
    by (simp add: s_A_value ev_a_666_def env_bad_def)
qed

text \<open>
  Claim C3. After any sequence of calls of the load and unload operations, starting from
  the empty set, \<^verbatim>\<open>passthrough_keys\<close> contains a code if and only if the vector of some
  path in \<^verbatim>\<open>key_sources\<close> holds it. In particular, when two different paths both hold a
  code and one of them is unloaded, the code is still contained and the other path still
  holds its vector.
\<close>

theorem passthrough_set_union:
  "(contains (run_ops ops pt_init) c \<longleftrightarrow> contributed (run_ops ops pt_init) c) \<and>
   (p \<noteq> q \<and> map_of (key_sources (run_ops ops pt_init)) p = Some v \<and>
      map_of (key_sources (run_ops ops pt_init)) q = Some w \<and> c \<in> set v \<and> c \<in> set w \<longrightarrow>
    contains (unloadPassthrough p (run_ops ops pt_init)) c \<and>
    map_of (key_sources (unloadPassthrough p (run_ops ops pt_init))) q = Some w)"
proof -
  let ?s = "run_ops ops pt_init"
  have inv: "pt_inv ?s" by (rule run_ops_inv [OF pt_init_inv])
  then have a: "contains ?s c \<longleftrightarrow> contributed ?s c"
    by (simp add: contains_def contributed_def pt_inv_def)
  have b: "contains (unloadPassthrough p ?s) c \<and>
           map_of (key_sources (unloadPassthrough p ?s)) q = Some w"
    if pq: "p \<noteq> q" and w: "map_of (key_sources ?s) q = Some w" and c: "c \<in> set w"
  proof -
    have q: "map_of (key_sources (unloadPassthrough p ?s)) q = Some w"
      using pq w by (simp add: unload_other)
    then have "(q, w) \<in> set (key_sources (unloadPassthrough p ?s))" by (rule map_of_SomeD)
    with c have "c \<in> set (concat (map snd (key_sources (unloadPassthrough p ?s))))" by force
    moreover have "pt_inv (unloadPassthrough p ?s)" using inv by (rule unload_inv)
    ultimately have "contains (unloadPassthrough p ?s) c" by (simp add: contains_def pt_inv_def)
    with q show ?thesis by simp
  qed
  from a b show ?thesis by blast
qed

theorem passthrough_set_union_witness:
  "(contains s_AB 30 \<longleftrightarrow> contributed s_AB 30) \<and>
   ''/keys/b.csv'' \<noteq> ''/keys/a.csv'' \<and>
   map_of (key_sources s_AB) ''/keys/b.csv'' = Some [30, 31] \<and>
   map_of (key_sources s_AB) ''/keys/a.csv'' = Some [30] \<and>
   (30 :: int) \<in> set [30, 31] \<and> (30 :: int) \<in> set [30] \<and>
   contains (unloadPassthrough ''/keys/b.csv'' s_AB) 30 \<and>
   \<not> contains (unloadPassthrough ''/keys/b.csv'' s_AB) 31 \<and>
   map_of (key_sources (unloadPassthrough ''/keys/b.csv'' s_AB)) ''/keys/a.csv'' = Some [30]"
proof -
  have h: "''/keys/b.csv'' \<noteq> ''/keys/a.csv'' \<and>
     map_of (key_sources s_AB) ''/keys/b.csv'' = Some [30, 31] \<and>
     map_of (key_sources s_AB) ''/keys/a.csv'' = Some [30] \<and>
     (30 :: int) \<in> set [30, 31] \<and> (30 :: int) \<in> set [30]"
    by (simp add: s_AB_value)
  have n: "\<not> contains (unloadPassthrough ''/keys/b.csv'' s_AB) 31"
    by (simp add: s_AB_value unloadPassthrough_def contains_def)
  from h n passthrough_set_union
    [of "[Load env_keys ''/keys/a.csv'', Load env_keys ''/keys/b.csv'']" 30
      "''/keys/b.csv''" "''/keys/a.csv''" "[30, 31]" "[30]"]
  show ?thesis unfolding s_AB_run by blast
qed

text \<open>
  Claim C4, as the code has it. When \<^verbatim>\<open>realpath\<close> succeeds and the CSV file at the path
  fails to parse, the error is printed and the function returns, but the path has been
  unloaded before the file is read: the state is the one after
  \<^verbatim>\<open>unloadPassthrough\<close> of the path, plus the error message. The path has no vector in
  \<^verbatim>\<open>key_sources\<close> any more; the vectors of all other paths are kept.
\<close>

theorem parse_failure_unloads:
  "realpath e rel = Some p \<Longrightarrow> csv_key_code e p = None \<Longrightarrow>
     loadPassthrough e rel s =
       (unloadPassthrough p s)\<lparr>out := out (unloadPassthrough p s) @ [LogLoadError]\<rparr> \<and>
     map_of (key_sources (loadPassthrough e rel s)) p = None \<and>
     (\<forall>q. q \<noteq> p \<longrightarrow>
        map_of (key_sources (loadPassthrough e rel s)) q = map_of (key_sources s) q)"
  by (simp add: loadPassthrough_def Let_def unload_absent unload_other)

theorem parse_failure_unloads_witness:
  "realpath env_bad ''/keys/b.csv'' = Some ''/keys/b.csv'' \<and>
   csv_key_code env_bad ''/keys/b.csv'' = None \<and>
   loadPassthrough env_bad ''/keys/b.csv'' s_AB =
     \<lparr>key_sources = [(''/keys/a.csv'', [30])], passthrough_keys = {30},
      keys_fsw = {''/keys/a.csv'', ''/keys/b.csv''},
      out = [LogLoaded ''/keys/a.csv'', LogLoaded ''/keys/b.csv'', LogRM ''/keys/b.csv'',
             LogLoadError]\<rparr> \<and>
   map_of (key_sources (loadPassthrough env_bad ''/keys/b.csv'' s_AB)) ''/keys/b.csv'' = None \<and>
   map_of (key_sources (loadPassthrough env_bad ''/keys/b.csv'' s_AB)) ''/keys/a.csv'' = Some [30]"
proof -
  have h1: "realpath env_bad ''/keys/b.csv'' = Some ''/keys/b.csv''"
    and h2: "csv_key_code env_bad ''/keys/b.csv'' = None"
    by (simp_all add: env_bad_def)
  have u: "unloadPassthrough ''/keys/b.csv'' s_AB =
      \<lparr>key_sources = [(''/keys/a.csv'', [30])], passthrough_keys = {30},
       keys_fsw = {''/keys/a.csv'', ''/keys/b.csv''},
       out = [LogLoaded ''/keys/a.csv'', LogLoaded ''/keys/b.csv'', LogRM ''/keys/b.csv'']\<rparr>"
    by (auto simp: s_AB_value unloadPassthrough_def)
  show ?thesis using h1 h2 parse_failure_unloads [OF h1 h2, of s_AB]
    by (simp add: u)
qed

text \<open>
  Claim C4 as it was stated, that a parse failure keeps the prior contribution of the
  path, fails: \<^verbatim>\<open>a.csv\<close> is loaded and contributes the code 30; it is loaded again while it
  cannot be parsed; afterwards the path has no vector and 30 is not contained.
\<close>

theorem parse_failure_keeps_prior_counterexample:
  "realpath env_bad ''/keys/a.csv'' = Some ''/keys/a.csv'' \<and>
   csv_key_code env_bad ''/keys/a.csv'' = None \<and>
   map_of (key_sources s_A) ''/keys/a.csv'' = Some [30] \<and> contains s_A 30 \<and>
   map_of (key_sources (loadPassthrough env_bad ''/keys/a.csv'' s_A)) ''/keys/a.csv'' = None \<and>
   \<not> contains (loadPassthrough env_bad ''/keys/a.csv'' s_A) 30"
  by (simp add: env_bad_def s_A_value loadPassthrough_def unloadPassthrough_def contains_def)

text \<open>
  Claim C9. When \<^verbatim>\<open>realpath\<close> succeeds and the CSV file can be read, the vector stored
  for the path holds, in the order of the cells, one code for each cell that parses as an
  integer that is not negative, and nothing for any other cell; these codes are added to
  the set that the unload of the path leaves, and the vectors of other paths are not
  touched. A cell that does not parse neither ends the load nor changes what the other
  cells contribute.
\<close>

theorem load_contributes_parsed_cells:
  "realpath e rel = Some p \<Longrightarrow> csv_key_code e p = Some cells \<Longrightarrow>
     map_of (key_sources (loadPassthrough e rel s)) p = Some (List.map_filter cell_code cells) \<and>
     passthrough_keys (loadPassthrough e rel s) =
       passthrough_keys (unloadPassthrough p s) \<union> set (List.map_filter cell_code cells) \<and>
     (\<forall>q. q \<noteq> p \<longrightarrow>
        map_of (key_sources (loadPassthrough e rel s)) q = map_of (key_sources s) q)"
  by (simp add: loadPassthrough_def Let_def load_cells_eq AList.update_conv' unload_other)

theorem load_contributes_parsed_cells_witness:
  "realpath env_keys ''/keys/c.csv'' = Some ''/keys/c.csv'' \<and>
   csv_key_code env_keys ''/keys/c.csv'' = Some [''key'', ''44'', ''-3'', '' 45x'', [], ''44''] \<and>
   map_of (key_sources (loadPassthrough env_keys ''/keys/c.csv'' s_A)) ''/keys/c.csv'' =
     Some [44, 45, 44] \<and>
   passthrough_keys (loadPassthrough env_keys ''/keys/c.csv'' s_A) = {30, 44, 45} \<and>
   map_of (key_sources (loadPassthrough env_keys ''/keys/c.csv'' s_A)) ''/keys/a.csv'' =
     Some [30]"
proof -
  have h1: "realpath env_keys ''/keys/c.csv'' = Some ''/keys/c.csv''"
    and h2: "csv_key_code env_keys ''/keys/c.csv'' =
      Some [''key'', ''44'', ''-3'', '' 45x'', [], ''44'']"
    by (simp_all add: env_keys_def)
  have c: "List.map_filter cell_code [''key'', ''44'', ''-3'', '' 45x'', [], ''44''] = [44, 45, 44]"
    by (simp add: cell_code_def stoi_defs)
  have u: "passthrough_keys (unloadPassthrough ''/keys/c.csv'' s_A) = {30}"
    by (simp add: s_A_value unloadPassthrough_def)
  have a: "map_of (key_sources s_A) ''/keys/a.csv'' = Some [30]"
    by (simp add: s_A_value)
  have n: "''/keys/a.csv'' \<noteq> ''/keys/c.csv''" by simp
  note t = load_contributes_parsed_cells [OF h1 h2, of s_A, unfolded c u]
  from t have t1: "map_of (key_sources (loadPassthrough env_keys ''/keys/c.csv'' s_A)) ''/keys/c.csv'' =
          Some [44, 45, 44]" by (rule conjunct1)
  from t have t2: "passthrough_keys (loadPassthrough env_keys ''/keys/c.csv'' s_A) = {30} \<union> set [44, 45, 44]"
    by (rule conjunct2 [THEN conjunct1])
  note t3 = t [THEN conjunct2, THEN conjunct2, THEN spec, THEN mp, OF n]
  have t2': "passthrough_keys (loadPassthrough env_keys ''/keys/c.csv'' s_A) = {30, 44, 45}"
    unfolding t2 by auto
  show ?thesis
    unfolding t1 t2' t3 a using h1 h2 by simp
qed

text \<open>
  Claim C10. After any sequence of calls of the load and unload operations, starting from
  the empty set, every code that the set contains is not negative.
\<close>

theorem codes_nonnegative: "contains (run_ops ops pt_init) c \<Longrightarrow> 0 \<le> c"
proof -
  assume "contains (run_ops ops pt_init) c"
  moreover have "pt_inv (run_ops ops pt_init)" by (rule run_ops_inv [OF pt_init_inv])
  ultimately have "c \<in> set (concat (map snd (key_sources (run_ops ops pt_init))))"
    by (simp add: contains_def pt_inv_def)
  moreover have "nonneg_codes (run_ops ops pt_init)"
    by (rule run_ops_nonneg [OF pt_init_nonneg])
  ultimately show ?thesis by (auto simp: nonneg_codes_def list_all_iff)
qed

theorem codes_nonnegative_witness:
  "contains (run_ops [Load env_keys ''/keys/a.csv''] pt_init) 30 \<and> (0 :: int) \<le> 30"
proof -
  have h: "contains (run_ops [Load env_keys ''/keys/a.csv''] pt_init) 30"
    by (simp add: s_A_run s_A_value contains_def)
  show ?thesis using h codes_nonnegative [OF h] by simp
qed

section \<open>Properties of the run loop\<close>

lemmas run_defs = run_iter_def handle_key_def send_recv_def socket_error_def emit_flush_def
  keyboard_error_def MAX_ERRORS_def

subsection \<open>The receive loop\<close>

lemma recv_loop_done:
  "\<forall>a \<in> set replies. \<not> act_done a \<Longrightarrow> act_done fin \<Longrightarrow>
     recv_loop (map Recv replies @ Recv fin # rest) s =
       RecvDone (s\<lparr>action := fin, udev := udev s @ map (\<lambda>a. Emit (act_ev a)) replies\<rparr>)"
  by (induction replies arbitrary: s) auto

text \<open>
  When \<^verbatim>\<open>recv\<close> throws after some replies, the buffer holds the last reply, and the key
  that was read from the keyboard only if there was no reply.
\<close>

lemma recv_loop_error:
  "\<forall>a \<in> set replies. \<not> act_done a \<Longrightarrow>
     recv_loop (map Recv replies @ RecvThrows # rest) s =
       RecvError (s\<lparr>action := last (action s # replies),
                    udev := udev s @ map (\<lambda>a. Emit (act_ev a)) replies\<rparr>)"
proof (induction replies arbitrary: s)
  case Nil
  then show ?case by simp
next
  case (Cons a replies)
  let ?s1 = "s\<lparr>action := a, udev := udev s @ [Emit (act_ev a)]\<rparr>"
  from Cons.prems have na: "\<not> act_done a" and r: "\<forall>a \<in> set replies. \<not> act_done a"
    by simp_all
  have "recv_loop (map Recv (a # replies) @ RecvThrows # rest) s =
          recv_loop (map Recv replies @ RecvThrows # rest) ?s1"
    using na by simp
  also have "\<dots> = RecvError (?s1\<lparr>action := last (action ?s1 # replies),
                 udev := udev ?s1 @ map (\<lambda>a. Emit (act_ev a)) replies\<rparr>)"
    by (rule Cons.IH [OF r])
  also have "\<dots> = RecvError (s\<lparr>action := last (action s # a # replies),
                 udev := udev s @ map (\<lambda>a. Emit (act_ev a)) (a # replies)\<rparr>)"
    by simp
  finally show ?case .
qed

subsection \<open>The error counter\<close>

lemma socket_error_aborts_iff: "is_aborted (socket_error s) \<longleftrightarrow> 30 < errors s"
  by (simp add: socket_error_def is_aborted_def MAX_ERRORS_def)

lemma send_error_iter:
  "errors s \<le> 30 \<Longrightarrow> available_kbds s = [0] \<Longrightarrow> kbd_state s 0 = LOCKED \<Longrightarrow>
     \<exists>s'. run_iter in_send_error s = Continue s' \<and> errors s' = errors s + 1 \<and>
          available_kbds s' = [0] \<and> kbd_state s' 0 = LOCKED"
  by (simp add: run_defs in_send_error_def key30_def Let_def)

lemma send_error_abort:
  "30 < errors s \<Longrightarrow> available_kbds s = [0] \<Longrightarrow> kbd_state s 0 = LOCKED \<Longrightarrow>
     \<exists>s'. run_iter in_send_error s = Aborted s'"
  by (simp add: run_defs in_send_error_def key30_def Let_def)

lemma send_errors_loop:
  "errors s + int n \<le> 31 \<Longrightarrow> available_kbds s = [0] \<Longrightarrow> kbd_state s 0 = LOCKED \<Longrightarrow>
     \<exists>s'. run_loop (replicate n in_send_error) s = Continue s' \<and>
          errors s' = errors s + int n \<and> available_kbds s' = [0] \<and> kbd_state s' 0 = LOCKED"
proof (induction n arbitrary: s)
  case 0
  then show ?case by simp
next
  case (Suc n)
  from Suc.prems have "errors s \<le> 30" by simp
  with Suc.prems obtain s1 where s1: "run_iter in_send_error s = Continue s1"
    "errors s1 = errors s + 1" "available_kbds s1 = [0]" "kbd_state s1 0 = LOCKED"
    using send_error_iter by blast
  with Suc.prems have "errors s1 + int n \<le> 31" by simp
  from Suc.IH [OF this s1(3) s1(4)] s1 show ?case by auto
qed

lemma run_loop_snoc:
  "run_loop (inps @ [inp]) s =
     (case run_loop inps s of Continue s' \<Rightarrow> run_iter inp s' | r \<Rightarrow> r)"
  by (induction inps arbitrary: s) (auto split: outcome.splits)

subsection \<open>The buffer at the start of an iteration\<close>

text \<open>
  What an iteration, and any number of iterations, emit and send does not depend on the
  content of the buffer \<^verbatim>\<open>action\<close> at the start.
\<close>

lemma action_overwritten:
  "a\<lparr>act_done := False, act_ev := e\<rparr> = \<lparr>act_ev = e, act_done = False\<rparr>"
  by (cases a) simp

lemma forget_action_cases:
  "forget_action s = forget_action t \<Longrightarrow> t = s\<lparr>action := action t\<rparr>"
proof -
  assume "forget_action s = forget_action t"
  then have "(forget_action s)\<lparr>action := action t\<rparr> = (forget_action t)\<lparr>action := action t\<rparr>"
    by simp
  then show ?thesis by (simp add: forget_action_def)
qed

lemma run_iter_action: "forget (run_iter inp (s\<lparr>action := b\<rparr>)) = forget (run_iter inp s)"
  by (cases "in_get inp")
     (simp_all add: run_iter_def Let_def forget_action_def keyboard_error_def action_overwritten)

lemma run_iter_forget:
  assumes "forget_action s = forget_action t"
  shows "forget (run_iter inp s) = forget (run_iter inp t)"
proof -
  from assms have "t = s\<lparr>action := action t\<rparr>" by (rule forget_action_cases)
  then have "run_iter inp t = run_iter inp (s\<lparr>action := action t\<rparr>)" by (rule arg_cong)
  then show ?thesis by (simp only: run_iter_action)
qed

lemma forget_Continue:
  "forget r = forget (Continue s) \<Longrightarrow> \<exists>t. r = Continue t \<and> forget_action t = forget_action s"
  by (cases r) simp_all

lemma run_loop_forget:
  "forget_action s = forget_action t \<Longrightarrow> forget (run_loop inps s) = forget (run_loop inps t)"
proof (induction inps arbitrary: s t)
  case Nil
  then show ?case by simp
next
  case (Cons inp inps)
  from Cons.prems have f: "forget (run_iter inp t) = forget (run_iter inp s)"
    by (rule run_iter_forget [symmetric])
  show ?case
  proof (cases "run_iter inp s")
    case (Continue s1)
    with f have "forget (run_iter inp t) = forget (Continue s1)" by simp
    from forget_Continue [OF this] obtain t1 where t1: "run_iter inp t = Continue t1"
      and e: "forget_action t1 = forget_action s1"
      by blast
    from e [symmetric] have "forget (run_loop inps s1) = forget (run_loop inps t1)"
      by (rule Cons.IH)
    with Continue t1 show ?thesis by simp
  next
    case (Aborted s1)
    with f show ?thesis by (cases "run_iter inp t") simp_all
  next
    case Blocked
    with f show ?thesis by (cases "run_iter inp t") simp_all
  next
    case Undefined
    with f show ?thesis by (cases "run_iter inp t") simp_all
  qed
qed

lemma outputs_forget: "outputs (forget r) = outputs r"
  by (cases r) (simp_all add: outputs_def forget_action_def)

lemma forget_outputs: "forget r = forget r' \<Longrightarrow> outputs r = outputs r'"
  using outputs_forget [of r] outputs_forget [of r'] by simp

subsection \<open>The wait for the permissions\<close>

text \<open>
  The bits 4 and 2 are outside of \<^verbatim>\<open>S_IRWXG\<close>, so the test of the group permissions in
  the condition of the loop never holds.
\<close>

lemma grp_perm_and_4: "4 AND ((m :: 32 word) AND S_IRWXG) = 0"
proof -
  have "4 AND (m AND 56) = m AND ((4 :: 32 word) AND 56)"
    by (simp add: ac_simps)
  also have "(4 :: 32 word) AND 56 = 0" by simp
  finally show ?thesis by (simp add: S_IRWXG_def)
qed

text \<open>
  The loop is left for \<^verbatim>\<open>isMe\<close> as soon as the file belongs to the group \<^verbatim>\<open>input\<close>,
  whatever its permission bits are, and as soon as \<^verbatim>\<open>stat\<close> fails.
\<close>

lemma wait_loop_group_owner:
  "hp_stat h n = Some st \<Longrightarrow> st_gid st = input_gid h \<Longrightarrow> S_ISCHR (st_mode (ev_stbuf ev)) \<Longrightarrow>
   wait_time + wait_inc_us \<le> FSW_MAX_WAIT_PERMISSIONS_US \<Longrightarrow>
     wait_loop h ev n wait_time = Proceed (Suc n)"
  by (subst wait_loop.simps) simp

lemma wait_loop_stat_fails:
  "hp_stat h n = None \<Longrightarrow> wait_time + wait_inc_us \<le> FSW_MAX_WAIT_PERMISSIONS_US \<Longrightarrow>
     wait_loop h ev n wait_time = Proceed (Suc n)"
  by (subst wait_loop.simps) simp

text \<open>The loop is bounded: it calls \<^verbatim>\<open>stat\<close> at most 50000 times before it proceeds.\<close>

lemma wait_loop_bounded:
  "wait_loop h ev n wait_time = Proceed n' \<Longrightarrow>
     n < n' \<and> wait_time + wait_inc_us * int (n' - n) \<le> FSW_MAX_WAIT_PERMISSIONS_US"
proof (induction h ev n wait_time rule: wait_loop.induct)
  case (1 h ev n wait_time)
  from "1.prems" have c: "\<not> (hp_stat h n \<noteq> None \<and> \<not> S_ISCHR (st_mode (ev_stbuf ev)))"
    and w: "\<not> wait_time + wait_inc_us > FSW_MAX_WAIT_PERMISSIONS_US"
    by (subst (asm) wait_loop.simps, simp split: if_splits)+
  show ?case
  proof (cases "hp_stat h n")
    case None
    with "1.prems" c w have "n' = Suc n" by (subst (asm) wait_loop.simps) simp
    with w show ?thesis by simp
  next
    case (Some stbuf)
    let ?again = "\<not> (4 AND (st_mode stbuf AND S_IRWXG) \<noteq> 0 \<and>
        (st_mode stbuf AND S_IRWXG) AND 2 \<noteq> 0) \<and> st_gid stbuf \<noteq> input_gid h"
    show ?thesis
    proof (cases ?again)
      case True
      with "1.prems" c w Some
      have r: "wait_loop h ev (Suc n) (wait_time + wait_inc_us) = Proceed n'"
        by (subst (asm) wait_loop.simps) simp
      note ih = "1.IH" [OF c w Some True r]
      from ih have lt: "Suc n < n'" by (rule conjunct1)
      from ih have le: "wait_time + wait_inc_us + wait_inc_us * int (n' - Suc n)
               \<le> FSW_MAX_WAIT_PERMISSIONS_US"
        by (rule conjunct2)
      from lt have "int (n' - n) = int (n' - Suc n) + 1" by simp
      then have "wait_inc_us * int (n' - n) = wait_inc_us * int (n' - Suc n) + wait_inc_us"
        by (simp only: distrib_left mult_1_right)
      with le have "wait_time + wait_inc_us * int (n' - n) \<le> FSW_MAX_WAIT_PERMISSIONS_US"
        by simp
      moreover from lt have "n < n'" by simp
      ultimately show ?thesis by simp
    next
      case False
      with "1.prems" c w Some have "n' = Suc n"
        by (subst (asm) wait_loop.simps) (simp split: if_splits)
      with w show ?thesis by simp
    qed
  qed
qed

subsection \<open>What the handler of a socket error emits\<close>

text \<open>
  When \<^verbatim>\<open>send\<close> throws, the key that was read is emitted once. When \<^verbatim>\<open>recv\<close> throws
  after some replies, the replies have been emitted and the event that follows them is
  the one in the buffer: the last reply.
\<close>

lemma send_error_emits_key:
  assumes "0 \<le> in_idx inp" and "in_idx inp < int (length (available_kbds s))"
    and "kbd_state s (available_kbds s ! nat (in_idx inp)) = LOCKED"
    and "in_get inp = GetKey e" and "uint (ke_code e) \<in> in_keys inp"
    and "\<not> in_send_ok inp" and "errors s \<le> 30"
  shows "\<exists>s'. run_iter inp s = Continue s' \<and> errors s' = errors s + 1 \<and>
           udev s' = udev s @ [Emit e, Flush]"
  using assms by (simp add: run_defs Let_def)

lemma recv_error_emits_buffer:
  assumes "0 \<le> in_idx inp" and "in_idx inp < int (length (available_kbds s))"
    and "kbd_state s (available_kbds s ! nat (in_idx inp)) = LOCKED"
    and "in_get inp = GetKey e" and "uint (ke_code e) \<in> in_keys inp"
    and "in_send_ok inp" and "errors s \<le> 30"
    and "in_recv inp = map Recv replies @ RecvThrows # rest"
    and "\<forall>a \<in> set replies. \<not> act_done a"
  shows "\<exists>s'. run_iter inp s = Continue s' \<and> errors s' = errors s + 1 \<and>
           udev s' = udev s @ map (\<lambda>a. Emit (act_ev a)) replies @
             [Emit (act_ev (last (\<lparr>act_ev = e, act_done = False\<rparr> # replies))), Flush]"
  using assms by (simp add: run_defs Let_def recv_loop_error)

section \<open>The claims about the run loop\<close>

text \<open>
  Claim C2, at an input where the code departs from it. The key 30 is read from a locked
  keyboard and is a passthrough key; \<^verbatim>\<open>send\<close> succeeds, the macro daemon replies with
  the key 31 (not \<^verbatim>\<open>done\<close>) and the next \<^verbatim>\<open>recv\<close> throws \<^verbatim>\<open>SocketError\<close> while the
  error counter is 0. The reply was received into the buffer that held the key, so the
  iteration emits the key 31 twice and flushes; the key 30 is not emitted at all.
\<close>

theorem fallthrough_emits_last_reply:
  "run_iter in_reply_then_error run_init =
     Continue (run_init\<lparr>action := \<lparr>act_ev = key31, act_done = False\<rparr>, errors := 1,
                 udev := [Emit key31, Emit key31, Flush],
                 kbd_com_sent := [\<lparr>act_ev = key30, act_done = False\<rparr>]\<rparr>)"
  by (simp add: run_defs in_reply_then_error_def run_init_def key30_def key31_def)

text \<open>
  Claim C5, at an input where the code departs from it. From a counter of 0, thirty-one
  iterations in a row in which \<^verbatim>\<open>send\<close> throws \<^verbatim>\<open>SocketError\<close> do not abort the
  loop and leave the counter at 31; the loop aborts in the thirty-second such iteration.
\<close>

theorem abort_on_error_32:
  "\<not> is_aborted (run_loop (replicate 31 in_send_error) run_init) \<and>
   errors_after (run_loop (replicate 31 in_send_error) run_init) = Some 31 \<and>
   is_aborted (run_loop (replicate 32 in_send_error) run_init)"
proof -
  have i: "errors run_init + int 31 \<le> 31" "available_kbds run_init = [0]"
    "kbd_state run_init 0 = LOCKED"
    by (simp_all add: run_init_def)
  from send_errors_loop [OF i] obtain s1 where
    s1: "run_loop (replicate 31 in_send_error) run_init = Continue s1" "errors s1 = 31"
      "available_kbds s1 = [0]" "kbd_state s1 0 = LOCKED"
    by (auto simp: run_init_def)
  then obtain s2 where s2: "run_iter in_send_error s1 = Aborted s2"
    using send_error_abort [of s1] by auto
  have "(32 :: nat) = Suc 31" by simp
  then have "replicate 32 in_send_error = in_send_error # replicate 31 in_send_error"
    by (simp only: replicate_Suc)
  also have "\<dots> = replicate 31 in_send_error @ [in_send_error]"
    by (simp only: replicate_append_same)
  finally have "run_loop (replicate 32 in_send_error) run_init = Aborted s2"
    using s1 s2 by (simp add: run_loop_snoc)
  with s1 show ?thesis by (simp add: is_aborted_def errors_after_def)
qed

text \<open>
  Claim C6. In an iteration that reads a passthrough key from a locked keyboard, when
  \<^verbatim>\<open>send\<close> succeeds and the macro daemon sends any number of replies that are not
  \<^verbatim>\<open>done\<close> and then one that is, the iteration completes, the error counter is 0 when
  the next iteration starts, the replies have been emitted and flushed, and the key
  itself has not been emitted.
\<close>

theorem round_trip_resets_errors:
  assumes "0 \<le> in_idx inp" and "in_idx inp < int (length (available_kbds s))"
    and "kbd_state s (available_kbds s ! nat (in_idx inp)) = LOCKED"
    and "in_get inp = GetKey e" and "uint (ke_code e) \<in> in_keys inp"
    and "in_send_ok inp"
    and "in_recv inp = map Recv replies @ Recv fin # rest"
    and "\<forall>a \<in> set replies. \<not> act_done a" and "act_done fin"
  shows "\<exists>s'. run_iter inp s = Continue s' \<and> errors s' = 0 \<and>
           udev s' = udev s @ map (\<lambda>a. Emit (act_ev a)) replies @ [Flush] \<and>
           kbd_com_sent s' = kbd_com_sent s @ [\<lparr>act_ev = e, act_done = False\<rparr>]"
  using assms by (simp add: run_iter_def handle_key_def send_recv_def Let_def recv_loop_done)

theorem round_trip_resets_errors_witness:
  "\<exists>s'. run_iter in_echo (run_init\<lparr>errors := 5\<rparr>) = Continue s' \<and> errors s' = 0 \<and>
      udev s' = [Emit key30, Flush] \<and>
      kbd_com_sent s' = [\<lparr>act_ev = key30, act_done = False\<rparr>]"
  using round_trip_resets_errors [of in_echo "run_init\<lparr>errors := 5\<rparr>" key30
      "[\<lparr>act_ev = key30, act_done = False\<rparr>]" "\<lparr>act_ev = key30, act_done = True\<rparr>" "[]"]
  by (simp add: in_echo_def run_init_def key30_def)

text \<open>
  Claim C7. In an iteration in which the keyboard that \<^verbatim>\<open>kbdMultiplex\<close> reports as
  readable is not in the state LOCKED, the loop continues and nothing has been emitted
  on the virtual keyboard or sent to the macro daemon: the event is read and dropped (or
  the read fails and the keyboard is disabled). The event that was read stays in the
  buffer only: whatever iterations follow, they emit and send what they would have emitted
  and sent had the event never been read.
\<close>

theorem no_events_unless_locked:
  "0 \<le> in_idx inp \<Longrightarrow> in_idx inp < int (length (available_kbds s)) \<Longrightarrow>
   kbd_state s (available_kbds s ! nat (in_idx inp)) \<noteq> LOCKED \<Longrightarrow>
     \<exists>s'. run_iter inp s = Continue s' \<and> udev s' = udev s \<and>
          kbd_com_sent s' = kbd_com_sent s \<and> errors s' = errors s \<and>
          (in_get inp \<noteq> GetThrows \<longrightarrow>
             (\<forall>inps. outputs (run_loop inps s') = outputs (run_loop inps s)))"
proof (cases "in_get inp")
  case GetThrows
  assume "0 \<le> in_idx inp" "in_idx inp < int (length (available_kbds s))"
   "kbd_state s (available_kbds s ! nat (in_idx inp)) \<noteq> LOCKED"
  with GetThrows show ?thesis
    by (auto simp: run_iter_def keyboard_error_def Let_def)
next
  case (GetKey e)
  assume a: "0 \<le> in_idx inp" "in_idx inp < int (length (available_kbds s))"
   "kbd_state s (available_kbds s ! nat (in_idx inp)) \<noteq> LOCKED"
  let ?s' = "s\<lparr>action := \<lparr>act_ev = e, act_done = False\<rparr>\<rparr>"
  from a GetKey have r: "run_iter inp s = Continue ?s'"
    by (simp add: run_iter_def Let_def action_overwritten)
  have "forget_action ?s' = forget_action s" by (simp add: forget_action_def)
  then have "outputs (run_loop inps ?s') = outputs (run_loop inps s)" for inps
    by (intro forget_outputs run_loop_forget)
  with r show ?thesis by simp
qed

theorem no_events_unless_locked_witness:
  "\<exists>s'. run_iter in_echo (run_init\<lparr>kbd_state := (\<lambda>k. INITIAL), udev := [Flush]\<rparr>) =
          Continue s' \<and>
      udev s' = [Flush] \<and> kbd_com_sent s' = [] \<and> errors s' = 0 \<and>
      action s' = \<lparr>act_ev = key30, act_done = False\<rparr>"
proof -
  let ?s = "run_init\<lparr>kbd_state := (\<lambda>k. INITIAL), udev := [Flush]\<rparr>"
  have h: "0 \<le> in_idx in_echo" "in_idx in_echo < int (length (available_kbds ?s))"
    "kbd_state ?s (available_kbds ?s ! nat (in_idx in_echo)) \<noteq> LOCKED"
    by (simp_all add: in_echo_def run_init_def)
  have r: "run_iter in_echo ?s = Continue (?s\<lparr>action := \<lparr>act_ev = key30, act_done = False\<rparr>\<rparr>)"
    by (simp add: run_iter_def in_echo_def run_init_def Let_def)
  from no_events_unless_locked [OF h] r show ?thesis
    by (simp add: run_init_def)
qed

text \<open>
  Claim C8, at an input where the code departs from it. A keyboard is pulled and a
  character device appears that belongs to the group \<^verbatim>\<open>input\<close> with the mode 0600, so
  that no group permission bit is set. The wait loop is left after one call of
  \<^verbatim>\<open>stat\<close>, \<^verbatim>\<open>isMe\<close> is asked and the keyboard is reset, locked and made available.
\<close>

theorem hotplug_proceeds_without_group_bits:
  "(8576 :: 32 word) AND S_IRWXG = 0 \<and>
   wait_loop hp_restrictive ev_event7 0 0 = Proceed 1 \<and>
   input_fsw_callback hp_restrictive ev_event7 run_pulled =
     run_pulled\<lparr>kbd_state := (kbd_state run_pulled)(0 := LOCKED), available_kbds := [0],
                pulled_kbds := [], kbd_calls := [0], syslog := [SysPluggedIn 0]\<rparr>"
proof -
  have w: "wait_loop hp_restrictive ev_event7 0 0 = Proceed 1"
    by (simp add: hp_restrictive_def ev_event7_def S_ISCHR_def S_IFMT_def S_IFCHR_def
          S_IRWXG_def wait_inc_us_def FSW_MAX_WAIT_PERMISSIONS_US_def)
  have "input_fsw_callback hp_restrictive ev_event7 run_pulled =
     run_pulled\<lparr>kbd_state := (kbd_state run_pulled)(0 := LOCKED), available_kbds := [0],
                pulled_kbds := [], kbd_calls := [0], syslog := [SysPluggedIn 0]\<rparr>"
    by (simp add: input_fsw_callback_def run_pulled_def run_init_def hp_restrictive_def
          ev_event7_def S_ISCHR_def S_IFMT_def S_IFCHR_def S_IRWXG_def wait_inc_us_def
          FSW_MAX_WAIT_PERMISSIONS_US_def)
  with w show ?thesis by (simp add: S_IRWXG_def)
qed

end
